theory Spec2Isabelle
  imports Main "HOL-Library.Char_ord" "HOL-Library.List_Lexorder"
begin

unbundle bit_operations_syntax

section \<open>The library functions the program calls\<close>

subsection \<open>hashlib.sha256(...).hexdigest()\<close>

text \<open>
  SHA-256 as FIPS 180-4 defines it. A 32-bit word is an \<open>int\<close> in \<open>[0, 2^32)\<close>, with the
  wrap-around of every addition written out. The round constants and the initial hash value
  are written in decimal. The message schedule is kept in a window of
  sixteen words that slides by one word per round.
\<close>

definition K256 :: "int list" where
  "K256 = [
   1116352408, 1899447441, 3049323471, 3921009573, 961987163, 1508970993, 2453635748, 2870763221,
   3624381080, 310598401, 607225278, 1426881987, 1925078388, 2162078206, 2614888103, 3248222580,
   3835390401, 4022224774, 264347078, 604807628, 770255983, 1249150122, 1555081692, 1996064986,
   2554220882, 2821834349, 2952996808, 3210313671, 3336571891, 3584528711, 113926993, 338241895,
   666307205, 773529912, 1294757372, 1396182291, 1695183700, 1986661051, 2177026350, 2456956037,
   2730485921, 2820302411, 3259730800, 3345764771, 3516065817, 3600352804, 4094571909, 275423344,
   430227734, 506948616, 659060556, 883997877, 958139571, 1322822218, 1537002063, 1747873779,
   1955562222, 2024104815, 2227730452, 2361852424, 2428436474, 2756734187, 3204031479, 3329325298]"

type_synonym sha_state = "int \<times> int \<times> int \<times> int \<times> int \<times> int \<times> int \<times> int"

definition H256 :: sha_state where
  "H256 = (1779033703, 3144134277, 1013904242, 2773480762,
           1359893119, 2600822924, 528734635, 1541459225)"

definition add32 :: "int \<Rightarrow> int \<Rightarrow> int" where
  "add32 x y = (x + y) mod 2 ^ 32"

definition rotr :: "nat \<Rightarrow> int \<Rightarrow> int" where
  "rotr n x = x div 2 ^ n + (x mod 2 ^ n) * 2 ^ (32 - n)"

definition shr :: "nat \<Rightarrow> int \<Rightarrow> int" where
  "shr n x = x div 2 ^ n"

definition not32 :: "int \<Rightarrow> int" where
  "not32 x = 2 ^ 32 - 1 - x"

definition Ch :: "int \<Rightarrow> int \<Rightarrow> int \<Rightarrow> int" where
  "Ch x y z = (x AND y) XOR (not32 x AND z)"

definition Maj :: "int \<Rightarrow> int \<Rightarrow> int \<Rightarrow> int" where
  "Maj x y z = (x AND y) XOR (x AND z) XOR (y AND z)"

definition bsig0 :: "int \<Rightarrow> int" where
  "bsig0 x = rotr 2 x XOR rotr 13 x XOR rotr 22 x"

definition bsig1 :: "int \<Rightarrow> int" where
  "bsig1 x = rotr 6 x XOR rotr 11 x XOR rotr 25 x"

definition ssig0 :: "int \<Rightarrow> int" where
  "ssig0 x = rotr 7 x XOR rotr 18 x XOR shr 3 x"

definition ssig1 :: "int \<Rightarrow> int" where
  "ssig1 x = rotr 17 x XOR rotr 19 x XOR shr 10 x"

text \<open>Padding: the byte 0x80, zero bytes up to 56 modulo 64, the bit length on 8 bytes.\<close>

definition length_bytes :: "nat \<Rightarrow> int list" where
  "length_bytes n = (let l = (8 * int n) mod 2 ^ 64
     in [l div 2 ^ 56 mod 256, l div 2 ^ 48 mod 256, l div 2 ^ 40 mod 256, l div 2 ^ 32 mod 256,
         l div 2 ^ 24 mod 256, l div 2 ^ 16 mod 256, l div 2 ^ 8 mod 256, l mod 256])"

definition pad :: "int list \<Rightarrow> int list" where
  "pad m = m @ [0x80] @ replicate ((119 - length m mod 64) mod 64) 0 @ length_bytes (length m)"

fun words_of :: "int list \<Rightarrow> int list" where
  "words_of (a # b # c # d # r) = (((a * 256 + b) * 256 + c) * 256 + d) # words_of r"
| "words_of _ = []"

fun sha_round :: "sha_state \<Rightarrow> int \<Rightarrow> int \<Rightarrow> sha_state" where
  "sha_round (a, b, c, d, e, f, g, h) k w =
     (let t1 = add32 (add32 (add32 (add32 h (bsig1 e)) (Ch e f g)) k) w;
          t2 = add32 (bsig0 a) (Maj a b c)
      in (add32 t1 t2, a, b, c, add32 d t1, e, f, g))"

text \<open>\<open>w\<close> holds \<open>W\<^sub>t .. W\<^sub>t\<^sub>+\<^sub>1\<^sub>5\<close>; the next word is
  \<open>W\<^sub>t\<^sub>+\<^sub>1\<^sub>6 = \<sigma>\<^sub>1(W\<^sub>t\<^sub>+\<^sub>1\<^sub>4) + W\<^sub>t\<^sub>+\<^sub>9 + \<sigma>\<^sub>0(W\<^sub>t\<^sub>+\<^sub>1) + W\<^sub>t\<close>.\<close>

definition next_w :: "int list \<Rightarrow> int" where
  "next_w w = add32 (add32 (add32 (ssig1 (w ! 14)) (w ! 9)) (ssig0 (w ! 1))) (w ! 0)"

fun sha_rounds :: "sha_state \<Rightarrow> int list \<Rightarrow> int list \<Rightarrow> sha_state" where
  "sha_rounds s w [] = s"
| "sha_rounds s w (k # ks) = sha_rounds (sha_round s k (hd w)) (tl w @ [next_w w]) ks"

fun add8 :: "sha_state \<Rightarrow> sha_state \<Rightarrow> sha_state" where
  "add8 (a, b, c, d, e, f, g, h) (a', b', c', d', e', f', g', h') =
     (add32 a a', add32 b b', add32 c c', add32 d d',
      add32 e e', add32 f f', add32 g g', add32 h h')"

definition compress :: "sha_state \<Rightarrow> int list \<Rightarrow> sha_state" where
  "compress hs blk = add8 hs (sha_rounds hs blk K256)"

function sha_blocks :: "sha_state \<Rightarrow> int list \<Rightarrow> sha_state" where
  "sha_blocks hs ws =
     (if length ws < 16 then hs else sha_blocks (compress hs (take 16 ws)) (drop 16 ws))"
  by pat_completeness auto
termination
  by (relation "measure (\<lambda>(hs, ws). length ws)") auto

declare sha_blocks.simps [simp del]

definition hexdigit :: "int \<Rightarrow> char" where
  "hexdigit n = ''0123456789abcdef'' ! nat n"

definition hex_word :: "int \<Rightarrow> string" where
  "hex_word w = map (\<lambda>i. hexdigit (w div 16 ^ i mod 16)) [7, 6, 5, 4, 3, 2, 1, 0]"

fun hex8 :: "sha_state \<Rightarrow> string" where
  "hex8 (a, b, c, d, e, f, g, h) = concat (map hex_word [a, b, c, d, e, f, g, h])"

definition sha256_hexdigest :: "string \<Rightarrow> string" where
  "sha256_hexdigest bs = hex8 (sha_blocks H256 (words_of (pad (map of_char bs))))"

subsection \<open>str.encode() and the formatting of integers\<close>

text \<open>
  A Python \<open>str\<close> is modelled by a \<open>string\<close> whose characters are the code points 0..255.
  \<open>encode\<close> is UTF-8 on them: one byte below 128, two bytes from 128 on.
\<close>

definition encode_char :: "char \<Rightarrow> string" where
  "encode_char c = (let n = (of_char c :: nat) in
     if n < 128 then [c] else [char_of (192 + n div 64), char_of (128 + n mod 64)])"

definition encode :: "string \<Rightarrow> string" where
  "encode s = concat (map encode_char s)"

definition digit_char :: "nat \<Rightarrow> char" where
  "digit_char n = ''0123456789'' ! n"

fun str_nat :: "nat \<Rightarrow> string" where
  "str_nat n = (if n < 10 then [digit_char n] else str_nat (n div 10) @ [digit_char (n mod 10)])"

declare str_nat.simps [simp del]

text \<open>What \<open>f'{i}'\<close> and \<open>str(i)\<close> give for an \<open>int\<close>: decimal digits, a minus sign first
  when negative.\<close>

definition str_int :: "int \<Rightarrow> string" where
  "str_int i = (if i < 0 then CHR ''-'' # str_nat (nat (- i)) else str_nat (nat i))"

subsection \<open>JSON values and json.dumps(..., sort_keys=True)\<close>

text \<open>
  The values the program holds are the values of JSON. A \<open>dict\<close> is the list of its items
  in insertion order; its keys are distinct. A float is kept as the text json.dumps writes
  for it (the program only stores and dumps floats).
\<close>

datatype json =
    JNull
  | JBool bool
  | JInt int
  | JFloat string
  | JStr string
  | JList "json list"
  | JDict "(string \<times> json) list"

definition hex4 :: "nat \<Rightarrow> string" where
  "hex4 n = map (\<lambda>i. hexdigit (int (n div 16 ^ i mod 16))) [3, 2, 1, 0]"

text \<open>ensure_ascii is on: every character outside \<open>' '..'~'\<close> is escaped, and so are the
  double quote (0x22) and the backslash (0x5C).\<close>

definition escape_char :: "char \<Rightarrow> string" where
  "escape_char c = (let n = (of_char c :: nat) in
     if n = 0x22 then [CHR 0x5C, CHR 0x22]
     else if n = 0x5C then [CHR 0x5C, CHR 0x5C]
     else if n = 0x0A then [CHR 0x5C, CHR ''n'']
     else if n = 0x0D then [CHR 0x5C, CHR ''r'']
     else if n = 0x09 then [CHR 0x5C, CHR ''t'']
     else if n = 0x08 then [CHR 0x5C, CHR ''b'']
     else if n = 0x0C then [CHR 0x5C, CHR ''f'']
     else if 0x20 \<le> n \<and> n \<le> 0x7E then [c]
     else [CHR 0x5C, CHR ''u''] @ hex4 n)"

definition dumps_str :: "string \<Rightarrow> string" where
  "dumps_str s = [CHR 0x22] @ concat (map escape_char s) @ [CHR 0x22]"

fun join :: "string \<Rightarrow> string list \<Rightarrow> string" where
  "join sep [] = []"
| "join sep [x] = x"
| "join sep (x # y # ys) = x @ sep @ join sep (y # ys)"

text \<open>With sort_keys the items of every dict are written in the order of their keys
  (strings compare by code point); the separators are \<open>', '\<close> and \<open>': '\<close>.\<close>

fun dumps :: "json \<Rightarrow> string" where
  "dumps JNull = ''null''"
| "dumps (JBool b) = (if b then ''true'' else ''false'')"
| "dumps (JInt i) = str_int i"
| "dumps (JFloat r) = r"
| "dumps (JStr s) = dumps_str s"
| "dumps (JList xs) = ''['' @ join '', '' (map dumps xs) @ '']''"
| "dumps (JDict kvs) =
     ''{'' @ join '', '' (map snd (sort_key fst
        (map (\<lambda>(k, v). (k, dumps_str k @ '': '' @ dumps v)) kvs))) @ ''}''"

section \<open>The program\<close>

subsection \<open>Blocks and Blockchain.hash\<close>

text \<open>
  A block is the dict \<open>new_block\<close> builds: an integer index, a timestamp, the list of
  transactions, an integer proof and the previous hash, a string. Timestamp and
  transactions are only stored and dumped, so they are arbitrary JSON values.
  \<open>block_dict\<close> is the dict with its keys in the order \<open>new_block\<close> inserts them.
\<close>

datatype error = IndexError | RequestException

record block =
  index :: int
  timestamp :: json
  transactions :: "json list"
  block_proof :: int
  previous_hash :: string

definition block_dict :: "block \<Rightarrow> (string \<times> json) list" where
  "block_dict b =
     [(''index'', JInt (index b)),
      (''timestamp'', timestamp b),
      (''transactions'', JList (transactions b)),
      (''proof'', JInt (block_proof b)),
      (''previous_hash'', JStr (previous_hash b))]"

text \<open>\<open>hashlib.sha256(json.dumps(block, sort_keys=True).encode()).hexdigest()\<close>\<close>

definition hash :: "json \<Rightarrow> string" where
  "hash block = (let block_string = encode (dumps block) in sha256_hexdigest block_string)"

definition block_hash :: "block \<Rightarrow> string" where
  "block_hash b = hash (JDict (block_dict b))"

subsection \<open>valid_proof and proof_of_work\<close>

definition valid_proof :: "int \<Rightarrow> int \<Rightarrow> bool" where
  "valid_proof last_proof proof =
     (let guess = encode (str_int last_proof @ str_int proof);
          guess_hash = sha256_hexdigest guess
      in take 4 guess_hash = ''0000'')"

text \<open>The search loop may run forever: \<open>None\<close> is not returning.\<close>

partial_function (option) proof_of_work_from :: "int \<Rightarrow> int \<Rightarrow> int option" where
  "proof_of_work_from last_proof proof =
     (if valid_proof last_proof proof then Some proof
      else proof_of_work_from last_proof (proof + 1))"

declare proof_of_work_from.simps [code]

definition proof_of_work :: "int \<Rightarrow> int option" where
  "proof_of_work last_proof = proof_of_work_from last_proof 0"

subsection \<open>valid_chain\<close>

function valid_chain_loop :: "block list \<Rightarrow> block \<Rightarrow> nat \<Rightarrow> bool" where
  "valid_chain_loop chain last_block current_index =
     (if current_index < length chain then
        (let block = chain ! current_index in
         if previous_hash block \<noteq> block_hash last_block then False
         else if \<not> valid_proof (block_proof last_block) (block_proof block) then False
         else valid_chain_loop chain block (current_index + 1))
      else True)"
  by pat_completeness auto
termination
  by (relation "measure (\<lambda>(chain, last_block, current_index). length chain - current_index)") auto

declare valid_chain_loop.simps [simp del]

text \<open>\<open>chain[0]\<close> raises IndexError on the empty list.\<close>

definition valid_chain :: "block list \<Rightarrow> error + bool" where
  "valid_chain chain =
     (case chain of
        [] \<Rightarrow> Inl IndexError
      | last_block # _ \<Rightarrow> Inr (valid_chain_loop chain last_block 1))"

subsection \<open>The Blockchain object\<close>

record blockchain =
  chain :: "block list"
  current_transactions :: "json list"
  nodes :: "string set"

text \<open>
  Every operation takes the object and returns what the call returns or raises, with the
  object as the call leaves it. The clock reading \<open>time()\<close> is the argument \<open>now\<close>.
  \<open>previous_hash or self.hash(self.chain[-1])\<close> takes the hash when the argument is
  \<open>None\<close> or the empty string; \<open>self.chain[-1]\<close> raises IndexError on an empty chain.
\<close>

definition new_block :: "json \<Rightarrow> int \<Rightarrow> string option \<Rightarrow> blockchain \<Rightarrow> (error + block) \<times> blockchain" where
  "new_block now proof previous_hash' s =
     (let given = (case previous_hash' of None \<Rightarrow> False | Some h \<Rightarrow> h \<noteq> []) in
      if \<not> given \<and> chain s = [] then (Inl IndexError, s)
      else
        let block = \<lparr>index = int (length (chain s)) + 1,
                     timestamp = now,
                     transactions = current_transactions s,
                     block_proof = proof,
                     previous_hash = (case previous_hash' of
                                        None \<Rightarrow> block_hash (last (chain s))
                                      | Some h \<Rightarrow> if h \<noteq> [] then h
                                                  else block_hash (last (chain s)))\<rparr>
        in (Inr block, s\<lparr>current_transactions := [], chain := chain s @ [block]\<rparr>))"

text \<open>\<open>self.last_block\<close> is read after the append, so on an empty chain the call raises
  with the transaction already in the buffer.\<close>

definition new_transaction :: "json \<Rightarrow> json \<Rightarrow> json \<Rightarrow> blockchain \<Rightarrow> (error + int) \<times> blockchain" where
  "new_transaction sender recipient amount s =
     (let s' = s\<lparr>current_transactions := current_transactions s @
                  [JDict [(''sender'', sender), (''recipient'', recipient), (''amount'', amount)]]\<rparr>
      in case chain s' of
           [] \<Rightarrow> (Inl IndexError, s')
         | _ \<Rightarrow> (Inr (index (last (chain s')) + 1), s'))"

text \<open>\<open>netloc\<close> stands for \<open>urlparse(address).netloc\<close>.\<close>

definition register_node :: "(string \<Rightarrow> string) \<Rightarrow> string \<Rightarrow> blockchain \<Rightarrow> blockchain" where
  "register_node netloc address s = s\<lparr>nodes := insert (netloc address) (nodes s)\<rparr>"

definition init :: "json \<Rightarrow> blockchain" where
  "init now = snd (new_block now 100 (Some ''1'')
     \<lparr>chain = [], current_transactions = [], nodes = {}\<rparr>)"

subsection \<open>resolve_conflicts\<close>

text \<open>
  \<open>requests.get\<close> either raises (the peer cannot be reached, the request times out) or
  returns a response; the body of a response carries \<open>length\<close> and \<open>chain\<close>.
  \<open>get\<close> is the network: what the request to each node gives. \<open>neighbours\<close> is the
  order in which the loop visits the set \<open>self.nodes\<close>.
\<close>

record response =
  status_code :: int
  body_length :: int
  body_chain :: "block list"

datatype fetch = Raises | Returns response

fun examine :: "(string \<Rightarrow> fetch) \<Rightarrow> string list \<Rightarrow> block list option \<times> int
    \<Rightarrow> error + (block list option \<times> int)" where
  "examine get [] (new_chain, max_length) = Inr (new_chain, max_length)"
| "examine get (node # rest) (new_chain, max_length) =
     (case get node of
        Raises \<Rightarrow> Inl RequestException
      | Returns response \<Rightarrow>
          if status_code response = 200 then
            (if body_length response > max_length then
               (case valid_chain (body_chain response) of
                  Inl e \<Rightarrow> Inl e
                | Inr ok \<Rightarrow>
                    if ok then examine get rest (Some (body_chain response), body_length response)
                    else examine get rest (new_chain, max_length))
             else examine get rest (new_chain, max_length))
          else examine get rest (new_chain, max_length))"

text \<open>\<open>if new_chain:\<close> holds for a list that is neither \<open>None\<close> nor empty.\<close>

definition resolve_conflicts :: "(string \<Rightarrow> fetch) \<Rightarrow> string list \<Rightarrow> blockchain
    \<Rightarrow> (error + bool) \<times> blockchain" where
  "resolve_conflicts get neighbours s =
     (case examine get neighbours (None, int (length (chain s))) of
        Inl e \<Rightarrow> (Inl e, s)
      | Inr (new_chain, max_length) \<Rightarrow>
          (case new_chain of
             None \<Rightarrow> (Inr False, s)
           | Some c \<Rightarrow> if c \<noteq> [] then (Inr True, s\<lparr>chain := c\<rparr>) else (Inr False, s)))"

subsection \<open>mine\<close>

text \<open>The handler of /mine; it returns the fields of the block it forged. \<open>None\<close>: the
  search of \<open>proof_of_work\<close> does not return.\<close>

definition mine :: "string \<Rightarrow> json \<Rightarrow> blockchain \<Rightarrow> ((error + block) \<times> blockchain) option" where
  "mine node_identifier now s =
     (case chain s of
        [] \<Rightarrow> Some (Inl IndexError, s)
      | _ \<Rightarrow>
          (case proof_of_work (block_proof (last (chain s))) of
             None \<Rightarrow> None
           | Some proof \<Rightarrow>
               (case new_transaction (JStr ''0'') (JStr node_identifier) (JInt 1) s of
                  (Inl e, s1) \<Rightarrow> Some (Inl e, s1)
                | (Inr i, s1) \<Rightarrow> Some (new_block now proof None s1))))"

section \<open>What the specification states\<close>

text \<open>
  The invariant of the data model, with positions counted from 0: every block after the
  first carries the hash of the block before it and a proof that is valid for the proof of
  the block before it.
\<close>

definition link_ok :: "block list \<Rightarrow> nat \<Rightarrow> bool" where
  "link_ok c i =
     (previous_hash (c ! i) = block_hash (c ! (i - 1)) \<and>
      valid_proof (block_proof (c ! (i - 1))) (block_proof (c ! i)))"

definition chain_invariant :: "block list \<Rightarrow> bool" where
  "chain_invariant c = (\<forall>i \<in> {1 ..< length c}. link_ok c i)"

text \<open>
  The states the node reaches: from \<open>__init__\<close> by new_transaction, register_node,
  resolve_conflicts and mine with any arguments and any network, and by new_block when it
  is called the way mine calls it: with a proof that is valid for the proof of the last
  block and with no previous hash (or the hash of the last block).
\<close>

inductive reachable :: "blockchain \<Rightarrow> bool" where
  start: "reachable (init now)"
| transaction: "reachable s \<Longrightarrow> reachable (snd (new_transaction sender recipient amount s))"
| register: "reachable s \<Longrightarrow> reachable (register_node netloc address s)"
| resolve: "reachable s \<Longrightarrow> reachable (snd (resolve_conflicts get neighbours s))"
| mined: "reachable s \<Longrightarrow> mine node_identifier now s = Some (r, s') \<Longrightarrow> reachable s'"
| sealed: "reachable s \<Longrightarrow> valid_proof (block_proof (last (chain s))) proof \<Longrightarrow>
     previous_hash' = None \<or> previous_hash' = Some [] \<or>
       previous_hash' = Some (block_hash (last (chain s))) \<Longrightarrow>
     reachable (snd (new_block now proof previous_hash' s))"

text \<open>
  Two values with equal fields: the same value, or lists of such values, or dicts with the
  same keys that hold such values under each key, whatever the order in which the keys
  were inserted.
\<close>

inductive same_value :: "json \<Rightarrow> json \<Rightarrow> bool" where
  same: "same_value v v"
| lists: "length xs = length ys \<Longrightarrow> (\<forall>i < length xs. same_value (xs ! i) (ys ! i)) \<Longrightarrow>
     same_value (JList xs) (JList ys)"
| dicts: "distinct (map fst d1) \<Longrightarrow> distinct (map fst d2) \<Longrightarrow> fst ` set d1 = fst ` set d2 \<Longrightarrow>
     (\<forall>k v1 v2. (k, v1) \<in> set d1 \<and> (k, v2) \<in> set d2 \<longrightarrow> same_value v1 v2) \<Longrightarrow>
     same_value (JDict d1) (JDict d2)"

subsection \<open>Example data\<close>

text \<open>A peer's chain of two blocks: it does not start with the genesis block, its index
  fields are not the positions, and its one link holds (\<open>sha256('937111')\<close> starts with
  \<open>0000\<close>).\<close>

definition peer_block0 :: block where
  "peer_block0 = \<lparr>index = 7, timestamp = JFloat ''1.5'', transactions = [],
     block_proof = 93711, previous_hash = ''x''\<rparr>"

definition peer_block1 :: block where
  "peer_block1 = \<lparr>index = 99, timestamp = JFloat ''2.5'',
     transactions = [JDict [(''sender'', JStr ''a''), (''recipient'', JStr ''b''), (''amount'', JInt 5)]],
     block_proof = 1, previous_hash = block_hash peer_block0\<rparr>"

definition peer_chain :: "block list" where
  "peer_chain = [peer_block0, peer_block1]"

definition genesis_time :: json where
  "genesis_time = JFloat ''1700000000.123''"

text \<open>A network of three kinds of peers: \<open>down\<close> cannot be reached, \<open>busy\<close> answers 503,
  every other node answers 200 with \<open>peer_chain\<close> and its length.\<close>

definition example_net :: "string \<Rightarrow> fetch" where
  "example_net node =
     (if node = ''down'' then Raises
      else if node = ''busy'' then Returns \<lparr>status_code = 503, body_length = 9, body_chain = []\<rparr>
      else Returns \<lparr>status_code = 200, body_length = 2, body_chain = peer_chain\<rparr>)"

section \<open>Auxiliary facts\<close>

subsection \<open>Digests\<close>

lemma length_hex_word: "length (hex_word w) = 8"
  by (simp add: hex_word_def)

lemma length_sha256_hexdigest: "length (sha256_hexdigest bs) = 64"
proof -
  obtain a b c d e f g h where
    "sha_blocks H256 (words_of (pad (map of_char bs))) = (a, b, c, d, e, f, g, h)"
    by (metis prod_cases3)
  then show ?thesis
    by (simp add: sha256_hexdigest_def length_hex_word)
qed

lemma length_block_hash: "length (block_hash b) = 64"
  by (simp add: block_hash_def hash_def length_sha256_hexdigest)

text \<open>Evaluation of a digest inside the logic.\<close>

lemma replicate_numeral_step: "replicate (numeral n) x = x # replicate (pred_numeral n) x"
  by (simp add: numeral_eq_Suc)

lemmas sha_eval = sha256_hexdigest_def pad_def length_bytes_def replicate_numeral_step
  sha_blocks.simps compress_def K256_def next_w_def hex_word_def hexdigit_def H256_def
  add32_def rotr_def shr_def not32_def Ch_def Maj_def bsig0_def bsig1_def ssig0_def ssig1_def

lemmas str_eval = encode_def encode_char_def str_int_def str_nat.simps digit_char_def

lemma digest_937110:
  "sha256_hexdigest ''937110'' =
     ''c4335ad404f7f2548e803bd4428269cbecd358632f6140521b19271d60c90638''"
  by (simp add: sha_eval)

lemma digest_937111:
  "sha256_hexdigest ''937111'' =
     ''0000e6b89b0f08f0f7faf26f0ce60185e5043f11ed84c8881033ea0580011111''"
  by (simp add: sha_eval)

lemma not_valid_proof_93711_0: "\<not> valid_proof 93711 0"
proof -
  have "encode (str_int 93711 @ str_int 0) = ''937110''"
    by (simp add: str_eval)
  then show ?thesis
    by (simp add: valid_proof_def digest_937110)
qed

lemma valid_proof_93711_1: "valid_proof 93711 1"
proof -
  have "encode (str_int 93711 @ str_int 1) = ''937111''"
    by (simp add: str_eval)
  then show ?thesis
    by (simp add: valid_proof_def digest_937111)
qed

subsection \<open>The search of proof_of_work\<close>

lemma proof_of_work_from_finds:
  "valid_proof last_proof n \<Longrightarrow> p \<le> n \<Longrightarrow>
     \<exists>m. proof_of_work_from last_proof p = Some m \<and> p \<le> m \<and> m \<le> n \<and> valid_proof last_proof m \<and>
         (\<forall>k. p \<le> k \<and> k < m \<longrightarrow> \<not> valid_proof last_proof k)"
proof (induction "nat (n - p)" arbitrary: p)
  case 0
  then have "p = n" by simp
  with "0.prems" show ?case
    by (subst proof_of_work_from.simps) auto
next
  case (Suc d)
  show ?case
  proof (cases "valid_proof last_proof p")
    case True
    with Suc.prems show ?thesis
      by (subst proof_of_work_from.simps) auto
  next
    case False
    from Suc.hyps(2) have d: "d = nat (n - (p + 1))" and le: "p + 1 \<le> n" by linarith+
    from Suc.hyps(1) [OF d Suc.prems(1) le] obtain m where
      m: "proof_of_work_from last_proof (p + 1) = Some m" "p + 1 \<le> m" "m \<le> n"
         "valid_proof last_proof m" "\<forall>k. p + 1 \<le> k \<and> k < m \<longrightarrow> \<not> valid_proof last_proof k"
      by blast
    have "\<forall>k. p \<le> k \<and> k < m \<longrightarrow> \<not> valid_proof last_proof k"
    proof (intro allI impI)
      fix k assume "p \<le> k \<and> k < m"
      then have "k = p \<or> (p + 1 \<le> k \<and> k < m)" by linarith
      with False m(5) show "\<not> valid_proof last_proof k" by blast
    qed
    with False m show ?thesis
      by (subst proof_of_work_from.simps) auto
  qed
qed

lemma proof_of_work_93711: "proof_of_work 93711 = Some 1"
proof -
  have "proof_of_work_from 93711 1 = Some 1"
    by (subst proof_of_work_from.simps) (simp add: valid_proof_93711_1)
  then have "proof_of_work_from 93711 0 = Some 1"
    by (subst proof_of_work_from.simps) (simp add: not_valid_proof_93711_0)
  then show ?thesis by (simp add: proof_of_work_def)
qed

subsection \<open>The loop of valid_chain\<close>

lemma valid_chain_loop_step:
  "i < length c \<Longrightarrow>
   valid_chain_loop c last_block i =
     (previous_hash (c ! i) = block_hash last_block \<and>
      valid_proof (block_proof last_block) (block_proof (c ! i)) \<and>
      valid_chain_loop c (c ! i) (i + 1))"
  by (subst valid_chain_loop.simps) (simp add: Let_def)

lemma valid_chain_loop_done: "\<not> i < length c \<Longrightarrow> valid_chain_loop c last_block i"
  by (subst valid_chain_loop.simps) simp

lemma valid_chain_loop_iff:
  "0 < i \<Longrightarrow> last_block = c ! (i - 1) \<Longrightarrow>
   valid_chain_loop c last_block i = (\<forall>j \<in> {i ..< length c}. link_ok c j)"
proof (induction c last_block i rule: valid_chain_loop.induct)
  case (1 c last_block i)
  show ?case
  proof (cases "i < length c")
    case False
    then have "{i ..< length c} = {}" by simp
    with False show ?thesis by (simp add: valid_chain_loop_done)
  next
    case True
    have step: "valid_chain_loop c last_block i = (link_ok c i \<and> valid_chain_loop c (c ! i) (i + 1))"
      using valid_chain_loop_step [OF True, of last_block] "1.prems"(2) by (simp add: link_ok_def)
    have split: "(\<forall>j \<in> {i ..< length c}. link_ok c j) \<longleftrightarrow>
        (link_ok c i \<and> (\<forall>j \<in> {i + 1 ..< length c}. link_ok c j))"
    proof -
      from True have "{i ..< length c} = insert i {i + 1 ..< length c}" by auto
      then show ?thesis by simp
    qed
    show ?thesis
    proof (cases "link_ok c i")
      case False
      with step split show ?thesis by blast
    next
      case ok: True
      then have "previous_hash (c ! i) = block_hash last_block"
        and "valid_proof (block_proof last_block) (block_proof (c ! i))"
        using "1.prems"(2) by (simp_all add: link_ok_def)
      with True have "valid_chain_loop c (c ! i) (i + 1) = (\<forall>j \<in> {i + 1 ..< length c}. link_ok c j)"
        by (intro "1.IH" [of "c ! i"]) simp_all
      with step split show ?thesis by blast
    qed
  qed
qed

lemma valid_chain_iff: "c \<noteq> [] \<Longrightarrow> valid_chain c = Inr (chain_invariant c)"
proof -
  assume "c \<noteq> []"
  then obtain b bs where c: "c = b # bs" by (cases c) auto
  have "valid_chain_loop c b 1 = chain_invariant c"
    unfolding chain_invariant_def
    by (rule valid_chain_loop_iff) (simp_all add: c)
  then show ?thesis by (simp add: valid_chain_def c)
qed

subsection \<open>What the operations return\<close>

lemma init_eq: "init now = \<lparr>chain =
  [\<lparr>index = 1, timestamp = now, transactions = [], block_proof = 100, previous_hash = ''1''\<rparr>],
  current_transactions = [], nodes = {}\<rparr>"
  by (simp add: init_def new_block_def Let_def)

lemma new_block_nonempty:
  "chain s \<noteq> [] \<Longrightarrow>
   new_block now proof previous_hash' s =
     (let block = \<lparr>index = int (length (chain s)) + 1, timestamp = now,
                   transactions = current_transactions s, block_proof = proof,
                   previous_hash = (case previous_hash' of
                                      None \<Rightarrow> block_hash (last (chain s))
                                    | Some h \<Rightarrow> if h \<noteq> [] then h else block_hash (last (chain s)))\<rparr>
      in (Inr block, s\<lparr>current_transactions := [], chain := chain s @ [block]\<rparr>))"
  by (simp add: new_block_def Let_def)

lemma new_transaction_nonempty:
  "chain s \<noteq> [] \<Longrightarrow>
   new_transaction sender recipient amount s =
     (Inr (index (last (chain s)) + 1),
      s\<lparr>current_transactions := current_transactions s @
          [JDict [(''sender'', sender), (''recipient'', recipient), (''amount'', amount)]]\<rparr>)"
  by (cases "chain s") (simp_all add: new_transaction_def Let_def)

subsection \<open>Facts about valid_chain and resolve_conflicts\<close>

lemma chain_invariant_pair:
  "chain_invariant [a, b] \<longleftrightarrow>
     previous_hash b = block_hash a \<and> valid_proof (block_proof a) (block_proof b)"
proof -
  have "{1 ..< length [a, b]} = {1}" by auto
  then show ?thesis by (simp add: chain_invariant_def link_ok_def)
qed

lemma valid_chain_peer_chain: "valid_chain peer_chain = Inr True"
  by (simp add: peer_chain_def valid_chain_iff chain_invariant_pair)
     (simp add: peer_block0_def peer_block1_def valid_proof_93711_1)

lemma examine_append:
  "examine get (xs @ ys) acc =
     (case examine get xs acc of Inl e \<Rightarrow> Inl e | Inr acc' \<Rightarrow> examine get ys acc')"
proof (induction xs arbitrary: acc)
  case Nil
  show ?case by (cases acc) simp
next
  case (Cons x xs)
  obtain nc ml where acc: "acc = (nc, ml)" by (cases acc)
  show ?case
    by (cases "get x") (simp_all add: acc Cons.IH split: sum.splits)
qed

lemma examine_skip:
  "get n = Returns r \<Longrightarrow> status_code r \<noteq> 200 \<Longrightarrow>
   examine get (n # rest) acc = examine get rest acc"
  by (cases acc) simp

lemma examine_raises: "get n = Raises \<Longrightarrow> examine get (n # rest) acc = Inl RequestException"
  by (cases acc) simp

lemma examine_result:
  "examine get ns (nc, ml) = Inr (nc', ml') \<Longrightarrow>
     ml \<le> ml' \<and>
     ((nc' = nc \<and> ml' = ml) \<or>
      (\<exists>n \<in> set ns. \<exists>r. get n = Returns r \<and> status_code r = 200 \<and> ml < body_length r \<and>
          valid_chain (body_chain r) = Inr True \<and> nc' = Some (body_chain r) \<and>
          ml' = body_length r))"
proof (induction ns arbitrary: nc ml)
  case Nil
  then show ?case by simp
next
  case (Cons n ns)
  show ?case
  proof (cases "get n")
    case Raises
    with Cons.prems show ?thesis by simp
  next
    case (Returns r)
    show ?thesis
    proof (cases "status_code r = 200 \<and> ml < body_length r \<and> valid_chain (body_chain r) = Inr True")
      case True
      with Returns Cons.prems
      have "examine get ns (Some (body_chain r), body_length r) = Inr (nc', ml')" by simp
      from Cons.IH [OF this] True Returns show ?thesis by fastforce
    next
      case False
      with Returns Cons.prems have "examine get ns (nc, ml) = Inr (nc', ml')"
        by (auto split: if_splits sum.splits)
      from Cons.IH [OF this] show ?thesis by auto
    qed
  qed
qed

lemma resolve_conflicts_cases:
  "resolve_conflicts get ns s = (Inr False, s) \<or>
   (\<exists>e. resolve_conflicts get ns s = (Inl e, s)) \<or>
   (\<exists>n \<in> set ns. \<exists>r. get n = Returns r \<and> status_code r = 200 \<and>
       int (length (chain s)) < body_length r \<and> valid_chain (body_chain r) = Inr True \<and>
       body_chain r \<noteq> [] \<and>
       resolve_conflicts get ns s = (Inr True, s\<lparr>chain := body_chain r\<rparr>))"
proof (cases "examine get ns (None, int (length (chain s)))")
  case (Inl e)
  then show ?thesis by (simp add: resolve_conflicts_def)
next
  case (Inr acc)
  obtain nc ml where acc: "acc = (nc, ml)" by (cases acc)
  show ?thesis
  proof (cases nc)
    case None
    with Inr acc show ?thesis by (simp add: resolve_conflicts_def)
  next
    case (Some c)
    with examine_result [of get ns None "int (length (chain s))" nc ml] Inr acc
    obtain n r where nr: "n \<in> set ns" "get n = Returns r" "status_code r = 200"
      "int (length (chain s)) < body_length r" "valid_chain (body_chain r) = Inr True"
      "c = body_chain r"
      by auto
    from nr(5) have ne: "body_chain r \<noteq> []" by (auto simp: valid_chain_def)
    with Inr acc Some nr(6) have "resolve_conflicts get ns s = (Inr True, s\<lparr>chain := body_chain r\<rparr>)"
      by (simp add: resolve_conflicts_def)
    with nr ne show ?thesis by blast
  qed
qed

lemma resolve_good: "resolve_conflicts example_net [''good''] (init genesis_time) =
    (Inr True, (init genesis_time)\<lparr>chain := peer_chain\<rparr>)"
proof -
  have "peer_chain \<noteq> []" by (simp add: peer_chain_def)
  then show ?thesis
    by (simp add: resolve_conflicts_def example_net_def valid_chain_peer_chain init_eq)
qed

subsection \<open>Facts about mine\<close>

lemma mine_nonempty:
  "chain s \<noteq> [] \<Longrightarrow>
   mine node_identifier now s =
     (case proof_of_work (block_proof (last (chain s))) of
        None \<Rightarrow> None
      | Some proof \<Rightarrow> Some (new_block now proof None
          (snd (new_transaction (JStr ''0'') (JStr node_identifier) (JInt 1) s))))"
  by (cases "chain s") (simp_all add: mine_def new_transaction_nonempty split: option.splits)

lemma mine_empty: "chain s = [] \<Longrightarrow> mine node_identifier now s = Some (Inl IndexError, s)"
  by (simp add: mine_def)

lemma mine_appends:
  assumes "mine node_identifier now s = Some (Inr block, s')"
  shows "chain s' = chain s @ [block] \<and> proof_of_work (block_proof (last (chain s))) = Some (block_proof block) \<and>
     transactions block = current_transactions s @
       [JDict [(''sender'', JStr ''0''), (''recipient'', JStr node_identifier), (''amount'', JInt 1)]] \<and>
     previous_hash block = block_hash (last (chain s)) \<and> chain s \<noteq> []"
proof -
  from assms have ne: "chain s \<noteq> []" by (auto simp: mine_empty)
  from assms ne obtain p where p: "proof_of_work (block_proof (last (chain s))) = Some p"
    and nb: "new_block now p None (snd (new_transaction (JStr ''0'') (JStr node_identifier) (JInt 1) s))
        = (Inr block, s')"
    by (auto simp: mine_nonempty split: option.splits)
  from ne nb p show ?thesis
    by (auto simp: new_transaction_nonempty new_block_nonempty Let_def)
qed

subsection \<open>Facts about the invariant\<close>

lemma proof_of_work_from_valid:
  "proof_of_work_from last_proof p = Some m \<Longrightarrow> valid_proof last_proof m"
proof (rule proof_of_work_from.raw_induct [where P = "\<lambda>l q y. valid_proof l y"])
  show "valid_proof l y"
    if "\<And>l q y. f l q = Some y \<Longrightarrow> valid_proof l y"
      and "(if valid_proof l q then Some q else f l (q + 1)) = Some y"
    for f :: "int \<Rightarrow> int \<Rightarrow> int option" and l q y
    using that by (auto split: if_splits)
qed

lemma proof_of_work_valid: "proof_of_work last_proof = Some m \<Longrightarrow> valid_proof last_proof m"
  by (simp add: proof_of_work_def proof_of_work_from_valid)

lemma chain_invariant_snoc:
  assumes ne: "c \<noteq> []"
  shows "chain_invariant (c @ [b]) \<longleftrightarrow>
     chain_invariant c \<and> previous_hash b = block_hash (last c) \<and>
     valid_proof (block_proof (last c)) (block_proof b)"
proof -
  from ne have set: "{1 ..< length (c @ [b])} = insert (length c) {1 ..< length c}"
    by (cases c) auto
  have old: "link_ok (c @ [b]) j = link_ok c j" if "j \<in> {1 ..< length c}" for j
  proof -
    from that have "j < length c" "j - 1 < length c" by auto
    then show ?thesis by (simp add: link_ok_def nth_append)
  qed
  from ne have new: "link_ok (c @ [b]) (length c) \<longleftrightarrow>
      previous_hash b = block_hash (last c) \<and> valid_proof (block_proof (last c)) (block_proof b)"
    by (simp add: link_ok_def nth_append last_conv_nth)
  have "chain_invariant (c @ [b]) \<longleftrightarrow>
      link_ok (c @ [b]) (length c) \<and> (\<forall>j \<in> {1 ..< length c}. link_ok (c @ [b]) j)"
    unfolding chain_invariant_def set by blast
  also have "(\<forall>j \<in> {1 ..< length c}. link_ok (c @ [b]) j) \<longleftrightarrow> chain_invariant c"
    unfolding chain_invariant_def using old by blast
  finally show ?thesis using new by blast
qed

lemma resolve_conflicts_invariant:
  "chain s \<noteq> [] \<and> chain_invariant (chain s) \<Longrightarrow>
   chain (snd (resolve_conflicts get ns s)) \<noteq> [] \<and>
   chain_invariant (chain (snd (resolve_conflicts get ns s)))"
proof -
  assume inv: "chain s \<noteq> [] \<and> chain_invariant (chain s)"
  from resolve_conflicts_cases [of get ns s] show ?thesis
  proof (elim disjE exE bexE conjE)
    assume "resolve_conflicts get ns s = (Inr False, s)"
    with inv show ?thesis by simp
  next
    fix e assume "resolve_conflicts get ns s = (Inl e, s)"
    with inv show ?thesis by simp
  next
    fix n r
    assume v: "valid_chain (body_chain r) = Inr True" and ne: "body_chain r \<noteq> []"
      and res: "resolve_conflicts get ns s = (Inr True, s\<lparr>chain := body_chain r\<rparr>)"
    from v ne have "chain_invariant (body_chain r)" by (simp add: valid_chain_iff)
    with ne res show ?thesis by simp
  qed
qed

lemma mine_after_adoption:
  "mine ''node'' (JFloat ''3.0'')
      (snd (resolve_conflicts
         (\<lambda>node. Returns \<lparr>status_code = 200, body_length = 2, body_chain = [peer_block0]\<rparr>)
         [''peer''] (init genesis_time))) =
   Some (Inr \<lparr>index = 2, timestamp = JFloat ''3.0'',
               transactions = [JDict [(''sender'', JStr ''0''), (''recipient'', JStr ''node''),
                                      (''amount'', JInt 1)]],
               block_proof = 1, previous_hash = block_hash peer_block0\<rparr>,
         \<lparr>chain = [peer_block0,
              \<lparr>index = 2, timestamp = JFloat ''3.0'',
               transactions = [JDict [(''sender'', JStr ''0''), (''recipient'', JStr ''node''),
                                      (''amount'', JInt 1)]],
               block_proof = 1, previous_hash = block_hash peer_block0\<rparr>],
          current_transactions = [], nodes = {}\<rparr>)"
proof -
  have adopt: "snd (resolve_conflicts
         (\<lambda>node. Returns \<lparr>status_code = 200, body_length = 2, body_chain = [peer_block0]\<rparr>)
         [''peer''] (init genesis_time)) =
      \<lparr>chain = [peer_block0], current_transactions = [], nodes = {}\<rparr>"
    by (simp add: resolve_conflicts_def init_eq valid_chain_iff chain_invariant_def)
  have p: "block_proof peer_block0 = 93711" by (simp add: peer_block0_def)
  show ?thesis
    unfolding adopt
    by (simp add: mine_nonempty p proof_of_work_93711 new_transaction_nonempty new_block_nonempty Let_def)
qed

lemma chain_invariant_peer_chain: "chain_invariant peer_chain"
  by (simp add: peer_chain_def chain_invariant_pair)
     (simp add: peer_block0_def peer_block1_def valid_proof_93711_1)

lemma broken_link:
  "c \<noteq> [] \<Longrightarrow> j \<in> {1 ..< length c} \<Longrightarrow> \<not> link_ok c j \<Longrightarrow> valid_chain c = Inr False"
  by (auto simp: valid_chain_iff chain_invariant_def)

subsection \<open>Digests of blocks\<close>

lemmas dumps_eval = block_hash_def hash_def block_dict_def dumps_str_def escape_char_def

lemma block_hash_peer_block0:
  "block_hash peer_block0 = ''0b49232b3fde1a121880bb7efa0f1a3f7578817a8c77a83e196790710e7cc7b2''"
  by (simp add: peer_block0_def dumps_eval str_eval sha_eval)

lemma block_hash_peer_block0_changed:
  "block_hash (peer_block0\<lparr>transactions := [JStr ''z'']\<rparr>) =
     ''166d4f8ed4242b074c0d488a529e94dbfa9cbb681b944a87a7940343e4b9cec0''"
  by (simp add: peer_block0_def dumps_eval str_eval sha_eval)

lemma digest_172608:
  "sha256_hexdigest ''172608'' =
     ''0000f727854b50bb95c054b39c1fe5c92e5ebcfa4bcb5dc279f56aa96a365e5a''"
  by (simp add: sha_eval)

lemma valid_proof_1_72608: "valid_proof 1 72608"
proof -
  have "encode (str_int 1 @ str_int 72608) = ''172608''"
    by (simp add: str_eval)
  then show ?thesis
    by (simp add: valid_proof_def digest_172608)
qed

lemma chain_invariant_triple:
  "chain_invariant [a, b, c] \<longleftrightarrow>
     (previous_hash b = block_hash a \<and> valid_proof (block_proof a) (block_proof b)) \<and>
     (previous_hash c = block_hash b \<and> valid_proof (block_proof b) (block_proof c))"
proof -
  have "{1 ..< length [a, b, c]} = {1, 2}" by auto
  then show ?thesis by (simp add: chain_invariant_def link_ok_def)
qed

lemma block_hash_collision:
  "\<exists>t t'. t \<noteq> t' \<and> block_hash (b\<lparr>transactions := t\<rparr>) = block_hash (b\<lparr>transactions := t'\<rparr>)"
proof -
  let ?f = "\<lambda>t. block_hash (b\<lparr>transactions := t\<rparr>)"
  have "finite {s :: string. length s = 64}"
    using finite_lists_length_eq [of "UNIV :: char set" 64] by simp
  moreover have "range ?f \<subseteq> {s. length s = 64}"
    by (auto simp: length_block_hash)
  ultimately have fin: "finite (range ?f)" by (rule rev_finite_subset)
  have "\<not> inj ?f"
  proof
    assume "inj ?f"
    with fin have "finite (UNIV :: json list set)" by (rule finite_imageD)
    then show False using infinite_UNIV_listI by blast
  qed
  then show ?thesis by (auto simp: inj_on_def)
qed

subsection \<open>json.dumps with sort_keys and the order of insertion\<close>

lemma distinct_map_sort_key: "distinct (map f (sort_key f xs)) = distinct (map f xs)"
  by (induction xs) (simp_all add: distinct_insort_key)

lemma sorted_items_unique:
  assumes "distinct (map fst r1)" "distinct (map fst r2)" "set r1 = set r2"
  shows "sort_key fst r1 = sort_key fst r2"
proof (rule map_sorted_distinct_set_unique [where f = fst])
  from assms(1) have "inj_on fst (set r1)" by (simp add: distinct_map)
  with assms(3) show "inj_on fst (set (sort_key fst r1) \<union> set (sort_key fst r2))" by simp
  show "sorted (map fst (sort_key fst r1))" "sorted (map fst (sort_key fst r2))"
    by (rule sorted_sort_key)+
  from assms(1,2) show "distinct (map fst (sort_key fst r1))" "distinct (map fst (sort_key fst r2))"
    by (simp_all add: distinct_map_sort_key)
  from assms(3) show "set (sort_key fst r1) = set (sort_key fst r2)" by simp
qed

lemma dumps_dict: "dumps (JDict kvs) =
    ''{'' @ join '', '' (map snd (sort_key fst (map (\<lambda>kv. (fst kv, dumps_str (fst kv) @ '': '' @ dumps (snd kv))) kvs))) @ ''}''"
  by (simp add: case_prod_unfold)

lemma same_value_dumps: "same_value a b \<Longrightarrow> dumps a = dumps b"
proof (induction rule: same_value.induct)
  case (same v)
  show ?case by simp
next
  case (lists xs ys)
  then have "map dumps xs = map dumps ys"
    by (auto simp: list_eq_iff_nth_eq)
  then show ?case by simp
next
  case (dicts d1 d2)
  let ?r = "\<lambda>kv :: string \<times> json. (fst kv, dumps_str (fst kv) @ '': '' @ dumps (snd kv))"
  have sub: "set (map ?r a) \<subseteq> set (map ?r b)"
    if keys: "fst ` set a \<subseteq> fst ` set b"
      and vals: "\<forall>k v1 v2. (k, v1) \<in> set a \<and> (k, v2) \<in> set b \<longrightarrow> dumps v1 = dumps v2"
    for a b :: "(string \<times> json) list"
  proof
    fix x assume "x \<in> set (map ?r a)"
    then obtain k v1 where kv: "(k, v1) \<in> set a" and x: "x = ?r (k, v1)" by auto
    from kv keys obtain v2 where kv2: "(k, v2) \<in> set b" by force
    with kv vals have "dumps v1 = dumps v2" by blast
    with x have "x = ?r (k, v2)" by simp
    with kv2 show "x \<in> set (map ?r b)" by force
  qed
  from dicts have v12: "\<forall>k v1 v2. (k, v1) \<in> set d1 \<and> (k, v2) \<in> set d2 \<longrightarrow> dumps v1 = dumps v2"
    by blast
  then have v21: "\<forall>k v1 v2. (k, v1) \<in> set d2 \<and> (k, v2) \<in> set d1 \<longrightarrow> dumps v1 = dumps v2"
    by metis
  from dicts(3) have k12: "fst ` set d1 \<subseteq> fst ` set d2" and k21: "fst ` set d2 \<subseteq> fst ` set d1"
    by simp_all
  from sub [OF k12 v12] sub [OF k21 v21]
  have sets: "set (map ?r d1) = set (map ?r d2)" by blast
  have keys: "map fst (map ?r d) = map fst d" for d :: "(string \<times> json) list"
    by (simp add: comp_def)
  have "sort_key fst (map ?r d1) = sort_key fst (map ?r d2)"
  proof (rule sorted_items_unique)
    from dicts(1) show "distinct (map fst (map ?r d1))" by (simp only: keys)
    from dicts(2) show "distinct (map fst (map ?r d2))" by (simp only: keys)
    show "set (map ?r d1) = set (map ?r d2)" by (rule sets)
  qed
  then show ?case by (simp only: dumps_dict)
qed

lemma same_value_same_items:
  assumes "distinct (map fst d1)" "distinct (map fst d2)" "set d1 = set d2"
  shows "same_value (JDict d1) (JDict d2)"
proof (rule same_value.dicts)
  show "distinct (map fst d1)" "distinct (map fst d2)" by fact+
  from assms(3) show "fst ` set d1 = fst ` set d2" by simp
  show "\<forall>k v1 v2. (k, v1) \<in> set d1 \<and> (k, v2) \<in> set d2 \<longrightarrow> same_value v1 v2"
  proof (intro allI impI)
    fix k v1 v2 assume a: "(k, v1) \<in> set d1 \<and> (k, v2) \<in> set d2"
    with assms(3) have "(k, v1) \<in> set d2" by simp
    with a assms(2) have "v1 = v2" by (meson eq_key_imp_eq_value)
    then show "same_value v1 v2" by (simp add: same_value.same)
  qed
qed

lemma same_value_hash: "same_value a b \<Longrightarrow> hash a = hash b"
proof -
  assume "same_value a b"
  then have "dumps a = dumps b" by (rule same_value_dumps)
  then show ?thesis by (simp only: hash_def)
qed

section \<open>The claims\<close>

text \<open>
  C1. \<open>valid_proof(last_proof, proof)\<close> is true exactly when the hex digest of the two
  decimal strings put together starts with \<open>0000\<close>; and when some non-negative integer
  \<open>n\<close> is a valid proof for \<open>last_proof\<close>, \<open>proof_of_work(last_proof)\<close> returns, and what
  it returns is the smallest non-negative valid proof.
\<close>

theorem valid_proof_proof_of_work:
  "(valid_proof last_proof proof \<longleftrightarrow>
      (\<exists>rest. sha256_hexdigest (encode (str_int last_proof @ str_int proof)) = ''0000'' @ rest)) \<and>
   (0 \<le> n \<and> valid_proof last_proof n \<longrightarrow>
      (\<exists>m. proof_of_work last_proof = Some m \<and> 0 \<le> m \<and> m \<le> n \<and> valid_proof last_proof m \<and>
           (\<forall>k. 0 \<le> k \<and> k < m \<longrightarrow> \<not> valid_proof last_proof k)))"
proof (intro conjI impI)
  let ?h = "sha256_hexdigest (encode (str_int last_proof @ str_int proof))"
  show "valid_proof last_proof proof \<longleftrightarrow> (\<exists>rest. ?h = ''0000'' @ rest)"
  proof
    assume "valid_proof last_proof proof"
    then have "take 4 ?h = ''0000''" by (simp add: valid_proof_def)
    then have "?h = ''0000'' @ drop 4 ?h" by (metis append_take_drop_id)
    then show "\<exists>rest. ?h = ''0000'' @ rest" ..
  next
    assume "\<exists>rest. ?h = ''0000'' @ rest"
    then obtain rest where "?h = ''0000'' @ rest" ..
    then have "take 4 ?h = ''0000''" by simp
    then show "valid_proof last_proof proof" by (simp add: valid_proof_def)
  qed
next
  assume "0 \<le> n \<and> valid_proof last_proof n"
  then show "\<exists>m. proof_of_work last_proof = Some m \<and> 0 \<le> m \<and> m \<le> n \<and> valid_proof last_proof m \<and>
           (\<forall>k. 0 \<le> k \<and> k < m \<longrightarrow> \<not> valid_proof last_proof k)"
    using proof_of_work_from_finds [of last_proof n 0] by (simp add: proof_of_work_def)
qed

text \<open>For \<open>last_proof = 93711\<close> the proof 0 is not valid and the proof 1 is: the search
  returns 1.\<close>

theorem valid_proof_proof_of_work_witness:
  "(0::int) \<le> 1 \<and> valid_proof 93711 1 \<and> \<not> valid_proof 93711 0 \<and> proof_of_work 93711 = Some 1"
proof -
  from valid_proof_proof_of_work [of 93711 1 1] valid_proof_93711_1
  obtain m where m: "proof_of_work 93711 = Some m" "0 \<le> m" "m \<le> 1" "valid_proof 93711 m"
    by auto
  from m(2,3) have "m = 0 \<or> m = 1" by linarith
  with m(4) not_valid_proof_93711_0 have "m = 1" by auto
  with m(1) valid_proof_93711_1 not_valid_proof_93711_0 show ?thesis by simp
qed

text \<open>
  C2, at the input where the code leaves the claim. The local chain has two blocks; the
  only peer answers 200 with \<open>length = 5\<close> and a chain of one block. resolve_conflicts
  compares the reported length with the local length, so it returns True and the local
  chain becomes the peer's single block: a chain that is not longer than the one replaced.
\<close>

theorem resolve_conflicts_adopts_shorter_chain:
  "(let s = snd (new_block (JFloat ''2.0'') 7 None (init genesis_time));
        get = (\<lambda>node. Returns \<lparr>status_code = 200, body_length = 5, body_chain = [peer_block0]\<rparr>);
        result = resolve_conflicts get [''peer''] s
    in length (chain s) = 2 \<and> fst result = Inr True \<and> chain (snd result) = [peer_block0])"
  by (simp add: Let_def init_eq new_block_def resolve_conflicts_def valid_chain_iff chain_invariant_def)

text \<open>
  C4, as the code has it. A chain of exactly one block is valid whatever the block holds,
  the genesis-only chain in particular. (The empty list is not a chain valid_chain
  accepts: see the next theorem.)
\<close>

theorem valid_chain_single_block:
  "valid_chain [b] = Inr True \<and> valid_chain (chain (init now)) = Inr True"
  by (simp add: valid_chain_iff chain_invariant_def init_eq)

text \<open>C4 as stated fails on the empty chain: \<open>chain[0]\<close> raises IndexError, valid_chain
  does not return True.\<close>

theorem valid_chain_empty_raises:
  "valid_chain [] = Inl IndexError \<and> valid_chain [] \<noteq> Inr True"
  by (simp add: valid_chain_def)

text \<open>
  C7, at the input where the code leaves the claim. The node has adopted a peer's chain
  of one block whose index field is 7. new_transaction returns 8, the last block's index
  plus 1; the chain has length 1, and the block that new_block seals next, the one that
  holds the transaction, gets index 2.
\<close>

theorem new_transaction_index_after_adoption:
  "(let get = (\<lambda>node. Returns \<lparr>status_code = 200, body_length = 2, body_chain = [peer_block0]\<rparr>);
        s = snd (resolve_conflicts get [''peer''] (init genesis_time));
        result = new_transaction (JStr ''a'') (JStr ''b'') (JInt 10) s;
        sealed = new_block (JFloat ''3.0'') 7 None (snd result)
    in length (chain s) = 1 \<and> fst result = Inr 8 \<and> map_sum id index (fst sealed) = Inr 2)"
  by (simp add: Let_def init_eq new_block_def new_transaction_def resolve_conflicts_def
      valid_chain_iff chain_invariant_def peer_block0_def)

text \<open>
  C5, as the code has it. A peer that answers with a status other than 200 is skipped:
  the call gives what it gives without that peer. A fetch that raises is not caught: when
  the peers before it were examined without an exception, the call raises, whatever peers
  come after. And the replacement is all or nothing: the call returns False or raises with
  the object as it was, or it returns True with the chain replaced by the chain of a peer
  that answered 200, reported a length above the local one and passed valid_chain, and
  nothing else changed.
\<close>

theorem resolve_conflicts_failures:
  "(get p = Returns resp \<and> status_code resp \<noteq> 200 \<longrightarrow>
      resolve_conflicts get (before @ p # after) s = resolve_conflicts get (before @ after) s) \<and>
   (get q = Raises \<and> (\<exists>acc. examine get before (None, int (length (chain s))) = Inr acc) \<longrightarrow>
      resolve_conflicts get (before @ q # after) s = (Inl RequestException, s)) \<and>
   (resolve_conflicts get ns s = (Inr False, s) \<or>
    (\<exists>e. resolve_conflicts get ns s = (Inl e, s)) \<or>
    (\<exists>n \<in> set ns. \<exists>r. get n = Returns r \<and> status_code r = 200 \<and>
        int (length (chain s)) < body_length r \<and> valid_chain (body_chain r) = Inr True \<and>
        resolve_conflicts get ns s = (Inr True, s\<lparr>chain := body_chain r\<rparr>)))"
proof (intro conjI impI)
  assume "get p = Returns resp \<and> status_code resp \<noteq> 200"
  then have "examine get (before @ p # after) acc = examine get (before @ after) acc" for acc
    by (simp add: examine_append examine_skip split: sum.splits)
  then show "resolve_conflicts get (before @ p # after) s = resolve_conflicts get (before @ after) s"
    by (simp add: resolve_conflicts_def)
next
  assume "get q = Raises \<and> (\<exists>acc. examine get before (None, int (length (chain s))) = Inr acc)"
  then have "examine get (before @ q # after) (None, int (length (chain s))) = Inl RequestException"
    by (auto simp: examine_append examine_raises)
  then show "resolve_conflicts get (before @ q # after) s = (Inl RequestException, s)"
    by (simp add: resolve_conflicts_def)
next
  from resolve_conflicts_cases [of get ns s]
  show "resolve_conflicts get ns s = (Inr False, s) \<or>
    (\<exists>e. resolve_conflicts get ns s = (Inl e, s)) \<or>
    (\<exists>n \<in> set ns. \<exists>r. get n = Returns r \<and> status_code r = 200 \<and>
        int (length (chain s)) < body_length r \<and> valid_chain (body_chain r) = Inr True \<and>
        resolve_conflicts get ns s = (Inr True, s\<lparr>chain := body_chain r\<rparr>))"
    by blast
qed

text \<open>In \<open>example_net\<close>: the peer that answers 503 is skipped and the next peer's chain is
  adopted; with the unreachable peer between them the call raises and the object is as it
  was.\<close>

theorem resolve_conflicts_failures_witness:
  "resolve_conflicts example_net [''busy'', ''good''] (init genesis_time) =
     (Inr True, (init genesis_time)\<lparr>chain := peer_chain\<rparr>) \<and>
   resolve_conflicts example_net [''busy'', ''down'', ''good''] (init genesis_time) =
     (Inl RequestException, init genesis_time)"
proof -
  have busy: "example_net ''busy'' = Returns \<lparr>status_code = 503, body_length = 9, body_chain = []\<rparr>"
    and down: "example_net ''down'' = Raises"
    by (simp_all add: example_net_def)
  have ex: "\<exists>acc. examine example_net [''busy''] (None, int (length (chain (init genesis_time)))) = Inr acc"
    by (simp add: busy)
  from resolve_conflicts_failures [of example_net "''busy''"
      "\<lparr>status_code = 503, body_length = 9, body_chain = []\<rparr>" "[]" "[''good'']" "init genesis_time"
      "''busy''" "[]"] busy resolve_good
  have one: "resolve_conflicts example_net [''busy'', ''good''] (init genesis_time) =
     (Inr True, (init genesis_time)\<lparr>chain := peer_chain\<rparr>)"
    by simp
  from resolve_conflicts_failures [of example_net "''down''"
      "\<lparr>status_code = 503, body_length = 9, body_chain = []\<rparr>" "[''busy'']" "[''good'']" "init genesis_time"
      "''down''" "[]"] down ex
  have two: "resolve_conflicts example_net [''busy'', ''down'', ''good''] (init genesis_time) =
     (Inl RequestException, init genesis_time)"
    by simp
  from one two show ?thesis by simp
qed

text \<open>C5 as stated fails: the fetch from \<open>down\<close> raises, resolve_conflicts raises with it
  and never examines \<open>good\<close>, whose chain it adopts when \<open>down\<close> is not in the way.\<close>

theorem resolve_conflicts_unreachable_peer_is_fatal:
  "resolve_conflicts example_net [''down'', ''good''] (init genesis_time) =
     (Inl RequestException, init genesis_time) \<and>
   resolve_conflicts example_net [''good''] (init genesis_time) =
     (Inr True, (init genesis_time)\<lparr>chain := peer_chain\<rparr>)"
  using resolve_good by (simp add: resolve_conflicts_def example_net_def)

text \<open>
  C8, as the code has it. On a non-empty chain new_block returns and appends a block that
  holds the pending transactions in order, the old chain length plus 1 as index, the
  clock reading and the proof; its previous_hash is the argument when that is a non-empty
  string, and the hash of the old last block when the argument is None or the empty
  string; afterwards the buffer is empty. new_block is the only operation that appends to
  the chain: new_transaction and register_node leave the chain as it is, mine appends the
  block its new_block call returns, and resolve_conflicts leaves the chain or replaces it
  whole by a peer's chain.
\<close>

theorem new_block_seals:
  "(chain s \<noteq> [] \<longrightarrow>
      (\<exists>block. new_block now proof previous_hash' s =
           (Inr block, s\<lparr>current_transactions := [], chain := chain s @ [block]\<rparr>) \<and>
         transactions block = current_transactions s \<and>
         index block = int (length (chain s)) + 1 \<and>
         timestamp block = now \<and>
         block_proof block = proof \<and>
         previous_hash block =
           (case previous_hash' of
              None \<Rightarrow> block_hash (last (chain s))
            | Some h \<Rightarrow> if h = [] then block_hash (last (chain s)) else h))) \<and>
   chain (snd (new_transaction sender recipient amount s)) = chain s \<and>
   chain (register_node netloc address s) = chain s \<and>
   (mine node_identifier now' s = Some (Inr mined, s') \<longrightarrow> chain s' = chain s @ [mined]) \<and>
   (chain (snd (resolve_conflicts get ns s)) = chain s \<or>
    (\<exists>n \<in> set ns. \<exists>r. get n = Returns r \<and> chain (snd (resolve_conflicts get ns s)) = body_chain r))"
proof (intro conjI impI)
  assume "chain s \<noteq> []"
  then show "\<exists>block. new_block now proof previous_hash' s =
           (Inr block, s\<lparr>current_transactions := [], chain := chain s @ [block]\<rparr>) \<and>
         transactions block = current_transactions s \<and>
         index block = int (length (chain s)) + 1 \<and>
         timestamp block = now \<and>
         block_proof block = proof \<and>
         previous_hash block =
           (case previous_hash' of
              None \<Rightarrow> block_hash (last (chain s))
            | Some h \<Rightarrow> if h = [] then block_hash (last (chain s)) else h)"
    by (simp add: new_block_nonempty Let_def split: option.splits)
next
  show "chain (snd (new_transaction sender recipient amount s)) = chain s"
    by (simp add: new_transaction_def Let_def split: list.splits)
next
  show "chain (register_node netloc address s) = chain s"
    by (simp add: register_node_def)
next
  assume "mine node_identifier now' s = Some (Inr mined, s')"
  then show "chain s' = chain s @ [mined]" using mine_appends by blast
next
  from resolve_conflicts_cases [of get ns s]
  show "chain (snd (resolve_conflicts get ns s)) = chain s \<or>
    (\<exists>n \<in> set ns. \<exists>r. get n = Returns r \<and> chain (snd (resolve_conflicts get ns s)) = body_chain r)"
    by (elim disjE exE bexE conjE) (simp, simp, rule disjI2, force)
qed

text \<open>On the genesis chain with one pending transaction, \<open>new_block(7, 'abc')\<close> seals block
  2 with that transaction and the previous hash \<open>'abc'\<close>.\<close>

theorem new_block_seals_witness:
  "(let s = snd (new_transaction (JStr ''a'') (JStr ''b'') (JInt 10) (init genesis_time));
        sealed = new_block (JFloat ''2.0'') 7 (Some ''abc'') s
    in chain s \<noteq> [] \<and>
       map_sum id transactions (fst sealed) =
         Inr [JDict [(''sender'', JStr ''a''), (''recipient'', JStr ''b''), (''amount'', JInt 10)]] \<and>
       map_sum id index (fst sealed) = Inr 2 \<and>
       map_sum id previous_hash (fst sealed) = Inr ''abc'' \<and>
       current_transactions (snd sealed) = [] \<and>
       length (chain (snd sealed)) = 2)"
proof -
  let ?s = "snd (new_transaction (JStr ''a'') (JStr ''b'') (JInt 10) (init genesis_time))"
  have s: "?s = \<lparr>chain =
        [\<lparr>index = 1, timestamp = genesis_time, transactions = [], block_proof = 100,
          previous_hash = ''1''\<rparr>],
      current_transactions =
        [JDict [(''sender'', JStr ''a''), (''recipient'', JStr ''b''), (''amount'', JInt 10)]],
      nodes = {}\<rparr>"
    by (simp add: init_eq new_transaction_def Let_def)
  have ne: "chain ?s \<noteq> []" unfolding s by simp
  from new_block_seals [of ?s "JFloat ''2.0''" 7 "Some ''abc''" JNull JNull JNull id "[]" "[]" JNull
      peer_block0 ?s example_net "[]"] ne
  obtain block where b: "new_block (JFloat ''2.0'') 7 (Some ''abc'') ?s =
       (Inr block, ?s\<lparr>current_transactions := [], chain := chain ?s @ [block]\<rparr>)"
     "transactions block = current_transactions ?s" "index block = int (length (chain ?s)) + 1"
     "previous_hash block = ''abc''"
    by auto
  note b' = b [unfolded s]
  show ?thesis
    unfolding Let_def using ne b' unfolding s by simp
qed

text \<open>C8 as stated fails: the previous hash \<open>''\<close> is given and the block gets the hash of
  the last block instead; and resolve_conflicts makes the chain longer (from 1 block to 2)
  without new_block.\<close>

theorem new_block_empty_previous_hash:
  "(let sealed = new_block (JFloat ''2.0'') 7 (Some '''') (init genesis_time)
    in map_sum id previous_hash (fst sealed) = Inr (block_hash (last (chain (init genesis_time)))) \<and>
       map_sum id previous_hash (fst sealed) \<noteq> Inr '''') \<and>
   length (chain (init genesis_time)) = 1 \<and>
   length (chain (snd (resolve_conflicts example_net [''good''] (init genesis_time)))) = 2"
proof -
  have "block_hash b \<noteq> ''''" for b
    using length_block_hash [of b] by auto
  then show ?thesis
    by (simp add: Let_def new_block_def init_eq resolve_good [simplified init_eq] peer_chain_def)
qed

text \<open>
  C3, as the code has it. In every state reached from initialization by new_transaction,
  register_node, resolve_conflicts and mine, and by new_block called with a proof that is
  valid for the last block's proof and with no previous hash (or the last block's hash),
  the chain is not empty and every block after the first carries the hash of the block
  before it and a proof valid for that block's proof.
\<close>

theorem reachable_chain_invariant:
  "reachable s \<Longrightarrow> chain s \<noteq> [] \<and> chain_invariant (chain s)"
proof (induction rule: reachable.induct)
  case (start now)
  show ?case by (simp add: init_eq chain_invariant_def)
next
  case (transaction s sender recipient amount)
  then show ?case by (simp add: new_transaction_nonempty)
next
  case (register s netloc address)
  then show ?case by (simp add: register_node_def)
next
  case (resolve s get neighbours)
  from resolve.IH show ?case by (rule resolve_conflicts_invariant)
next
  case (mined s node_identifier now r s')
  show ?case
  proof (cases r)
    case (Inl e)
    with mined.hyps(2) mined.IH show ?thesis
      by (auto simp: mine_nonempty new_transaction_nonempty new_block_nonempty Let_def
          split: option.splits)
  next
    case (Inr block)
    with mined.hyps(2) have a: "chain s' = chain s @ [block]"
      "proof_of_work (block_proof (last (chain s))) = Some (block_proof block)"
      "previous_hash block = block_hash (last (chain s))"
      using mine_appends by blast+
    from a(2) have "valid_proof (block_proof (last (chain s))) (block_proof block)"
      by (rule proof_of_work_valid)
    with a mined.IH show ?thesis by (simp add: chain_invariant_snoc)
  qed
next
  case (sealed s "proof" previous_hash' now)
  then show ?case
    by (auto simp: new_block_nonempty Let_def chain_invariant_snoc)
qed

text \<open>The state after the node adopted the chain \<open>[peer_block0]\<close> and mined one block on
  it (the search returns the proof 1) is reached, and its chain has the invariant.\<close>

theorem reachable_chain_invariant_witness:
  "reachable \<lparr>chain = [peer_block0,
              \<lparr>index = 2, timestamp = JFloat ''3.0'',
               transactions = [JDict [(''sender'', JStr ''0''), (''recipient'', JStr ''node''),
                                      (''amount'', JInt 1)]],
               block_proof = 1, previous_hash = block_hash peer_block0\<rparr>],
          current_transactions = [], nodes = {}\<rparr> \<and>
   chain_invariant [peer_block0,
              \<lparr>index = 2, timestamp = JFloat ''3.0'',
               transactions = [JDict [(''sender'', JStr ''0''), (''recipient'', JStr ''node''),
                                      (''amount'', JInt 1)]],
               block_proof = 1, previous_hash = block_hash peer_block0\<rparr>]"
proof -
  let ?s = "\<lparr>chain = [peer_block0,
              \<lparr>index = 2, timestamp = JFloat ''3.0'',
               transactions = [JDict [(''sender'', JStr ''0''), (''recipient'', JStr ''node''),
                                      (''amount'', JInt 1)]],
               block_proof = 1, previous_hash = block_hash peer_block0\<rparr>],
          current_transactions = [], nodes = {}\<rparr>"
  have "reachable (init genesis_time)" by (rule reachable.start)
  then have "reachable (snd (resolve_conflicts
         (\<lambda>node. Returns \<lparr>status_code = 200, body_length = 2, body_chain = [peer_block0]\<rparr>)
         [''peer''] (init genesis_time)))"
    by (rule reachable.resolve)
  then have r: "reachable ?s"
    using mine_after_adoption by (rule reachable.mined)
  from reachable_chain_invariant [OF r] r show ?thesis by simp
qed

text \<open>C3 as stated fails: new_block is a public operation and checks nothing. After
  \<open>new_block(proof=0, previous_hash='x')\<close> on the fresh node the second block does not
  carry the hash of the genesis block.\<close>

theorem new_block_breaks_invariant:
  "\<not> chain_invariant (chain (snd (new_block (JFloat ''2.0'') 0 (Some ''x'') (init genesis_time))))"
proof -
  have "''x'' \<noteq> block_hash b" for b
  proof
    assume "''x'' = block_hash b"
    then have "length (block_hash b) = length ''x''" by simp
    then show False by (simp add: length_block_hash)
  qed
  then show ?thesis
    by (simp add: new_block_def init_eq Let_def chain_invariant_pair)
qed

text \<open>
  C6, as the code has it. A non-empty chain with the invariant passes valid_chain.
  Replacing the block at position \<open>i\<close> by a block \<open>b\<close> makes valid_chain return False
  when the block is not the first and \<open>b\<close> has another previous_hash; when it is not the
  first and the proof of \<open>b\<close> is not valid for the proof of the block before; and when
  the block has a successor and \<open>b\<close> (with other transactions, another proof, any other
  field) has another hash. Nothing is read of the last block but its previous_hash and its
  proof.
\<close>

theorem valid_chain_detects_changes:
  "c \<noteq> [] \<and> chain_invariant c \<longrightarrow>
     valid_chain c = Inr True \<and>
     (0 < i \<and> i < length c \<and> previous_hash b \<noteq> previous_hash (c ! i) \<longrightarrow>
        valid_chain (c[i := b]) = Inr False) \<and>
     (0 < i \<and> i < length c \<and> \<not> valid_proof (block_proof (c ! (i - 1))) (block_proof b) \<longrightarrow>
        valid_chain (c[i := b]) = Inr False) \<and>
     (i + 1 < length c \<and> block_hash b \<noteq> block_hash (c ! i) \<longrightarrow>
        valid_chain (c[i := b]) = Inr False)"
proof (intro impI conjI)
  assume "c \<noteq> [] \<and> chain_invariant c"
  then show "valid_chain c = Inr True" by (simp add: valid_chain_iff)
next
  assume inv: "c \<noteq> [] \<and> chain_invariant c"
    and ch: "0 < i \<and> i < length c \<and> previous_hash b \<noteq> previous_hash (c ! i)"
  from inv ch have "link_ok c i" by (simp add: chain_invariant_def)
  with ch have "\<not> link_ok (c[i := b]) i" by (auto simp: link_ok_def)
  with inv ch show "valid_chain (c[i := b]) = Inr False"
    by (intro broken_link [of _ i]) auto
next
  assume inv: "c \<noteq> [] \<and> chain_invariant c"
    and ch: "0 < i \<and> i < length c \<and> \<not> valid_proof (block_proof (c ! (i - 1))) (block_proof b)"
  then have "\<not> link_ok (c[i := b]) i" by (auto simp: link_ok_def)
  with inv ch show "valid_chain (c[i := b]) = Inr False"
    by (intro broken_link [of _ i]) auto
next
  assume inv: "c \<noteq> [] \<and> chain_invariant c"
    and ch: "i + 1 < length c \<and> block_hash b \<noteq> block_hash (c ! i)"
  from inv ch have "link_ok c (i + 1)" by (simp add: chain_invariant_def)
  with ch have "\<not> link_ok (c[i := b]) (i + 1)" by (auto simp: link_ok_def)
  with inv ch show "valid_chain (c[i := b]) = Inr False"
    by (intro broken_link [of _ "i + 1"]) auto
qed

text \<open>On \<open>peer_chain\<close>: another previous_hash in the second block, or the proof 0 in
  it, and valid_chain returns False; other transactions in the first block give it another
  hash (both digests are computed), and valid_chain returns False.\<close>

theorem valid_chain_detects_changes_witness:
  "peer_chain \<noteq> [] \<and> chain_invariant peer_chain \<and>
   valid_chain peer_chain = Inr True \<and>
   valid_chain (peer_chain[1 := peer_block1\<lparr>previous_hash := ''y''\<rparr>]) = Inr False \<and>
   valid_chain (peer_chain[1 := peer_block1\<lparr>block_proof := 0\<rparr>]) = Inr False \<and>
   block_hash (peer_block0\<lparr>transactions := [JStr ''z'']\<rparr>) \<noteq> block_hash (peer_chain ! 0) \<and>
   valid_chain (peer_chain[0 := peer_block0\<lparr>transactions := [JStr ''z'']\<rparr>]) = Inr False"
proof -
  have ne: "peer_chain \<noteq> []" and len: "(1::nat) < length peer_chain"
    and len0: "(0::nat) + 1 < length peer_chain"
    by (simp_all add: peer_chain_def)
  have "''y'' \<noteq> block_hash peer_block0"
  proof
    assume "''y'' = block_hash peer_block0"
    then have "length (block_hash peer_block0) = length ''y''" by simp
    then show False by (simp add: length_block_hash)
  qed
  then have ph: "previous_hash (peer_block1\<lparr>previous_hash := ''y''\<rparr>) \<noteq> previous_hash (peer_chain ! 1)"
    by (simp add: peer_chain_def peer_block1_def)
  have pr: "\<not> valid_proof (block_proof (peer_chain ! (1 - 1))) (block_proof (peer_block1\<lparr>block_proof := 0\<rparr>))"
    by (simp add: peer_chain_def peer_block0_def not_valid_proof_93711_0)
  have hs: "block_hash (peer_block0\<lparr>transactions := [JStr ''z'']\<rparr>) \<noteq> block_hash (peer_chain ! 0)"
    by (simp add: peer_chain_def block_hash_peer_block0 block_hash_peer_block0_changed)
  from valid_chain_detects_changes [of peer_chain 1 "peer_block1\<lparr>previous_hash := ''y''\<rparr>"]
    ne chain_invariant_peer_chain len ph
  have one: "valid_chain peer_chain = Inr True \<and>
      valid_chain (peer_chain[1 := peer_block1\<lparr>previous_hash := ''y''\<rparr>]) = Inr False"
    by simp
  from valid_chain_detects_changes [of peer_chain 1 "peer_block1\<lparr>block_proof := 0\<rparr>"]
    ne chain_invariant_peer_chain len pr
  have two: "valid_chain (peer_chain[1 := peer_block1\<lparr>block_proof := 0\<rparr>]) = Inr False"
    by simp
  from valid_chain_detects_changes [of peer_chain 0 "peer_block0\<lparr>transactions := [JStr ''z'']\<rparr>"]
    ne chain_invariant_peer_chain len0 hs
  have three: "valid_chain (peer_chain[0 := peer_block0\<lparr>transactions := [JStr ''z'']\<rparr>]) = Inr False"
    by simp
  from ne chain_invariant_peer_chain one two three hs show ?thesis by simp
qed

text \<open>
  C6 as stated fails. The transactions of the last block of a valid chain of two blocks
  are replaced, and valid_chain still returns True: the spec's sentence speaks of a field
  inside the chain, and the last block's fields are never hashed. For a block that has a
  block before it and a block after it, the claim asks that no two blocks that differ in
  their transactions have the same digest; there are more lists of transactions than
  digests, so some valid chain of three blocks stays valid when the transactions of its
  middle block are replaced.
\<close>

theorem valid_chain_misses_changes:
  "chain_invariant peer_chain \<and> 2 \<le> length peer_chain \<and>
   transactions (peer_block1\<lparr>transactions := []\<rparr>) \<noteq> transactions (peer_chain ! 1) \<and>
   valid_chain (peer_chain[1 := peer_block1\<lparr>transactions := []\<rparr>]) = Inr True \<and>
   (\<exists>c b. chain_invariant c \<and> length c = 3 \<and>
      transactions b \<noteq> transactions (c ! 1) \<and> b = (c ! 1)\<lparr>transactions := transactions b\<rparr> \<and>
      valid_chain (c[1 := b]) = Inr True)"
proof -
  have last: "valid_chain [peer_block0, peer_block1\<lparr>transactions := []\<rparr>] = Inr True"
    by (simp add: valid_chain_iff chain_invariant_pair)
       (simp add: peer_block0_def peer_block1_def valid_proof_93711_1)
  obtain t t' where tt: "t \<noteq> t'"
    "block_hash (peer_block1\<lparr>transactions := t\<rparr>) = block_hash (peer_block1\<lparr>transactions := t'\<rparr>)"
    using block_hash_collision [of peer_block1] by blast
  define third where "third = \<lparr>index = 3, timestamp = JFloat ''3.5'', transactions = [],
      block_proof = 72608, previous_hash = block_hash (peer_block1\<lparr>transactions := t\<rparr>)\<rparr>"
  define c where "c = [peer_block0, peer_block1\<lparr>transactions := t\<rparr>, third]"
  define b where "b = peer_block1\<lparr>transactions := t'\<rparr>"
  have p0: "block_proof peer_block0 = 93711" by (simp add: peer_block0_def)
  have p1: "block_proof (peer_block1\<lparr>transactions := u\<rparr>) = 1"
    "previous_hash (peer_block1\<lparr>transactions := u\<rparr>) = block_hash peer_block0" for u
    by (simp_all add: peer_block1_def)
  have inv: "chain_invariant c"
    by (simp add: c_def chain_invariant_triple p0 p1 valid_proof_93711_1)
       (simp add: third_def valid_proof_1_72608)
  have inv': "chain_invariant (c[1 := b])"
    by (simp add: c_def b_def chain_invariant_triple p0 p1 valid_proof_93711_1)
       (simp add: third_def valid_proof_1_72608 tt(2))
  have "valid_chain (c[1 := b]) = Inr True"
    using inv' by (simp add: valid_chain_iff c_def)
  moreover have "length c = 3" by (simp add: c_def)
  moreover from tt(1) have "transactions b \<noteq> transactions (c ! 1)" by (simp add: b_def c_def)
  moreover have "b = (c ! 1)\<lparr>transactions := transactions b\<rparr>" by (simp add: b_def c_def)
  ultimately have ex: "\<exists>c b. chain_invariant c \<and> length c = 3 \<and>
      transactions b \<noteq> transactions (c ! 1) \<and> b = (c ! 1)\<lparr>transactions := transactions b\<rparr> \<and>
      valid_chain (c[1 := b]) = Inr True"
    using inv by blast
  from last chain_invariant_peer_chain ex show ?thesis
    by (simp add: peer_chain_def) (simp add: peer_block1_def)
qed

text \<open>
  C10. valid_chain asks nothing of a chain but its links: every non-empty chain whose
  consecutive hash links and proof checks hold is valid, whatever its first block holds
  and whatever the index fields say; and resolve_conflicts adopts such a chain from a
  peer that answers 200 and reports a length above the local one.
\<close>

theorem valid_chain_unconstrained_first_block:
  "c \<noteq> [] \<and> chain_invariant c \<longrightarrow>
     valid_chain c = Inr True \<and>
     (get n = Returns r \<and> status_code r = 200 \<and> body_chain r = c \<and>
      int (length (chain s)) < body_length r \<longrightarrow>
        resolve_conflicts get [n] s = (Inr True, s\<lparr>chain := c\<rparr>))"
  by (auto simp: valid_chain_iff resolve_conflicts_def)


text \<open>\<open>peer_chain\<close> does not start with the genesis block (previous_hash \<open>'x'\<close>, proof
  93711) and its index fields are 7 and 99; it is valid and the fresh node adopts it.\<close>

theorem valid_chain_unconstrained_first_block_witness:
  "peer_chain \<noteq> [] \<and> chain_invariant peer_chain \<and>
   previous_hash (peer_chain ! 0) \<noteq> ''1'' \<and> block_proof (peer_chain ! 0) \<noteq> 100 \<and>
   index (peer_chain ! 0) \<noteq> 1 \<and> index (peer_chain ! 1) \<noteq> 2 \<and>
   valid_chain peer_chain = Inr True \<and>
   resolve_conflicts example_net [''good''] (init genesis_time) =
     (Inr True, (init genesis_time)\<lparr>chain := peer_chain\<rparr>)"
proof -
  have ne: "peer_chain \<noteq> []" by (simp add: peer_chain_def)
  have g: "example_net ''good'' = Returns \<lparr>status_code = 200, body_length = 2, body_chain = peer_chain\<rparr>"
    by (simp add: example_net_def)
  have l: "int (length (chain (init genesis_time))) < 2" by (simp add: init_eq)
  from valid_chain_unconstrained_first_block [of peer_chain example_net "''good''"
      "\<lparr>status_code = 200, body_length = 2, body_chain = peer_chain\<rparr>" "init genesis_time"]
    ne chain_invariant_peer_chain g l
  have "valid_chain peer_chain = Inr True \<and>
     resolve_conflicts example_net [''good''] (init genesis_time) =
       (Inr True, (init genesis_time)\<lparr>chain := peer_chain\<rparr>)"
    by simp
  with ne chain_invariant_peer_chain show ?thesis
    by (simp add: peer_chain_def peer_block0_def peer_block1_def)
qed

text \<open>
  C9. \<open>hash\<close> is a function of the value it is given, so two calls on the same block give
  the same digest; and it does not see the order of insertion: two values with equal
  fields (dicts compared by their keys and the values under them, at every depth) have the
  same digest; in particular two dicts with distinct keys and the same items, and every
  dict that holds the five fields of a block in any order has the digest \<open>block_hash\<close> of
  that block.
\<close>

theorem hash_insertion_order:
  "(same_value block1 block2 \<longrightarrow> hash block1 = hash block2) \<and>
   (distinct (map fst d1) \<and> distinct (map fst d2) \<and> set d1 = set d2 \<longrightarrow>
      hash (JDict d1) = hash (JDict d2)) \<and>
   (distinct (map fst d) \<and> set d = set (block_dict b) \<longrightarrow> hash (JDict d) = block_hash b)"
proof (intro conjI impI)
  assume "same_value block1 block2"
  then show "hash block1 = hash block2" by (rule same_value_hash)
next
  assume "distinct (map fst d1) \<and> distinct (map fst d2) \<and> set d1 = set d2"
  then have "same_value (JDict d1) (JDict d2)" by (simp add: same_value_same_items)
  then show "hash (JDict d1) = hash (JDict d2)" by (rule same_value_hash)
next
  assume a: "distinct (map fst d) \<and> set d = set (block_dict b)"
  have "distinct (map fst (block_dict b))" by (simp add: block_dict_def)
  with a have "same_value (JDict d) (JDict (block_dict b))" by (simp add: same_value_same_items)
  then have "hash (JDict d) = hash (JDict (block_dict b))" by (rule same_value_hash)
  then show "hash (JDict d) = block_hash b" by (simp only: block_hash_def)
qed


text \<open>The fields of \<open>peer_block0\<close> inserted in alphabetical order hash to
  \<open>block_hash peer_block0\<close>; and a dict whose keys, and the keys of the transaction inside
  it, were inserted in another order has equal fields and the same digest.\<close>

theorem hash_insertion_order_witness:
  "hash (JDict [(''index'', JInt 7), (''previous_hash'', JStr ''x''), (''proof'', JInt 93711),
                (''timestamp'', JFloat ''1.5''), (''transactions'', JList [])]) =
     block_hash peer_block0 \<and>
   same_value
     (JDict [(''transactions'', JList [JDict [(''amount'', JInt 5), (''recipient'', JStr ''b''),
                                             (''sender'', JStr ''a'')]]),
             (''index'', JInt 99)])
     (JDict [(''index'', JInt 99),
             (''transactions'', JList [JDict [(''sender'', JStr ''a''), (''recipient'', JStr ''b''),
                                             (''amount'', JInt 5)]])]) \<and>
   hash
     (JDict [(''transactions'', JList [JDict [(''amount'', JInt 5), (''recipient'', JStr ''b''),
                                             (''sender'', JStr ''a'')]]),
             (''index'', JInt 99)]) =
   hash
     (JDict [(''index'', JInt 99),
             (''transactions'', JList [JDict [(''sender'', JStr ''a''), (''recipient'', JStr ''b''),
                                             (''amount'', JInt 5)]])])"
proof -
  let ?wire = "[(''index'', JInt 7), (''previous_hash'', JStr ''x''), (''proof'', JInt 93711),
                (''timestamp'', JFloat ''1.5''), (''transactions'', JList [])]"
  let ?t1 = "JDict [(''amount'', JInt 5), (''recipient'', JStr ''b''), (''sender'', JStr ''a'')]"
  let ?t2 = "JDict [(''sender'', JStr ''a''), (''recipient'', JStr ''b''), (''amount'', JInt 5)]"
  let ?d1 = "[(''transactions'', JList [?t1]), (''index'', JInt 99)]"
  let ?d2 = "[(''index'', JInt 99), (''transactions'', JList [?t2])]"
  have w: "distinct (map fst ?wire) \<and> set ?wire = set (block_dict peer_block0)"
    by (auto simp: block_dict_def peer_block0_def)
  have t: "same_value ?t1 ?t2"
    by (rule same_value.dicts) (auto intro: same_value.same)
  then have l: "same_value (JList [?t1]) (JList [?t2])"
    by (intro same_value.lists) simp_all
  have d: "same_value (JDict ?d1) (JDict ?d2)"
  proof (rule same_value.dicts)
    show "\<forall>k v1 v2. (k, v1) \<in> set ?d1 \<and> (k, v2) \<in> set ?d2 \<longrightarrow> same_value v1 v2"
      using l by (auto intro: same_value.same)
  qed auto
  from hash_insertion_order [of "JDict ?d1" "JDict ?d2" "[]" "[]" ?wire peer_block0] w d
  show ?thesis by simp
qed

end
